theory Spec2Isabelle
  imports Complex_Main
begin

section \<open>The 2D RRT planner of \<open>ros2rrt/rrt2D.py\<close>\<close>

text \<open>
  The planner computes with numpy floats. The embedding computes with exact reals: a
  position is a pair of reals, \<open>np.linalg.norm\<close> is the Euclidean norm, and the
  comparisons of the source are the comparisons of \<open>real\<close>. The random draws of
  \<open>np.random.randint\<close> are an input: the stream \<open>rnd\<close> gives the pair of integers
  drawn in the \<open>k\<close>-th pass of the \<open>while\<close> loop. The planner is defined for every
  stream, also one that leaves the range \<open>[-map_size, map_size)\<close> of the draws.
\<close>

subsection \<open>Positions\<close>

type_synonym position = "real \<times> real"

definition linalg_norm :: "position \<Rightarrow> real" where
  "linalg_norm v = sqrt ((fst v)\<^sup>2 + (snd v)\<^sup>2)"

definition vec_sub :: "position \<Rightarrow> position \<Rightarrow> position" where
  "vec_sub a b = (fst a - fst b, snd a - snd b)"

definition vec_add :: "position \<Rightarrow> position \<Rightarrow> position" where
  "vec_add a b = (fst a + fst b, snd a + snd b)"

definition vec_div :: "position \<Rightarrow> real \<Rightarrow> position" where
  "vec_div v d = (fst v / d, snd v / d)"

definition vec_mul :: "position \<Rightarrow> real \<Rightarrow> position" where
  "vec_mul v s = (fst v * s, snd v * s)"

subsection \<open>Tree nodes and obstacles\<close>

text \<open>
  Modelled from the spec: the class \<open>TreeNode\<close> of \<open>submodules/TreeNode.py\<close>, which is
  not among the sources. A node has a position \<open>val\<close>, an optional parent and an
  ordered list of children; the constructor \<open>TreeNode(val, parent)\<close> stores both and
  starts with no children, and \<open>add_child\<close> appends to the children. The planner
  keeps every node it links in \<open>node_list\<close> and never removes one, so an object
  reference is the index of the node in \<open>node_list\<close>.
\<close>

record tree_node =
  val :: position
  parent :: "nat option"
  children :: "nat list"

definition TreeNode :: "position \<Rightarrow> nat option \<Rightarrow> tree_node" where
  "TreeNode v p = \<lparr>val = v, parent = p, children = []\<rparr>"

definition add_child :: "tree_node \<Rightarrow> nat \<Rightarrow> tree_node" where
  "add_child node c = node\<lparr>children := children node @ [c]\<rparr>"

text \<open>
  Modelled from the spec: the classes \<open>Circle(x, y, radius)\<close> and
  \<open>Rectangle(x, y, width, height, angle)\<close> of \<open>submodules/Obstacles.py\<close>, which is not
  among the sources; the planner reads the fields \<open>x\<close>, \<open>y\<close>, \<open>radius\<close>, \<open>width\<close>
  and \<open>height\<close> and never the angle.
\<close>

datatype obstacle =
  Circle real real real
  | Rectangle real real real real real

record config =
  start_position :: position
  goal_position :: position
  map_size :: "int \<times> int"
  node_limit :: int
  goal_tolerance :: real
  step_size :: real
  obstacle_list :: "obstacle list"

subsection \<open>The collision test (lines 101 to 113)\<close>

fun collides :: "obstacle \<Rightarrow> position \<Rightarrow> bool" where
  "collides (Circle x y radius) p = (linalg_norm (vec_sub p (x, y)) < radius)"
| "collides (Rectangle x y width height angle) p =
     ((x - width / 2 < fst p \<and> fst p < x + width / 2) \<and>
      (y - height / 2 < snd p \<and> snd p < y + height / 2))"

fun collision :: "obstacle list \<Rightarrow> position \<Rightarrow> bool" where
  "collision [] p = False"
| "collision (obstacle # rest) p = (if collides obstacle p then True else collision rest p)"

subsection \<open>The scan of the node list (lines 78 to 94)\<close>

text \<open>
  \<open>min_distance\<close>, \<open>min_node\<close> and \<open>min_node_vec\<close> change together, so they are one
  optional triple: \<open>None\<close> is the state before the first assignment, where
  \<open>min_distance\<close> is \<open>np.inf\<close>, \<open>min_node\<close> is \<open>None\<close> and \<open>min_node_vec\<close> is not
  bound yet.
\<close>

type_synonym nearest = "(real \<times> nat \<times> position) option"

datatype scan_result = Reached nat | Scanned nearest

fun closer :: "real \<Rightarrow> nearest \<Rightarrow> bool" where
  "closer distance None = True"
| "closer distance (Some (min_distance, min_node, min_node_vec)) = (distance < min_distance)"

fun scan_nodes :: "config \<Rightarrow> position \<Rightarrow> tree_node list \<Rightarrow> nat \<Rightarrow> nearest \<Rightarrow> scan_result" where
  "scan_nodes cfg random_position [] i best = Scanned best"
| "scan_nodes cfg random_position (node # rest) i best =
     (if linalg_norm (vec_sub (goal_position cfg) (val node)) < goal_tolerance cfg
      then Reached i
      else let new_node_vec = vec_sub random_position (val node);
               distance = linalg_norm new_node_vec
           in scan_nodes cfg random_position rest (Suc i)
                (if closer distance best then Some (distance, i, new_node_vec) else best))"

subsection \<open>One pass of the growth loop (lines 73 to 117)\<close>

datatype error = ValueError | UnboundLocalError | IndexError

definition attach :: "tree_node list \<Rightarrow> nat \<Rightarrow> position \<Rightarrow> tree_node list" where
  "attach node_list i v =
     node_list[i := add_child (node_list ! i) (length node_list)] @ [TreeNode v (Some i)]"

definition loop_body :: "config \<Rightarrow> int \<times> int \<Rightarrow> tree_node list \<Rightarrow> error + (bool \<times> tree_node list)" where
  "loop_body cfg sample node_list =
     (let random_position = (real_of_int (fst sample), real_of_int (snd sample))
      in case scan_nodes cfg random_position node_list 0 None of
           Reached i \<Rightarrow> Inr (True, attach node_list i (goal_position cfg))
         | Scanned None \<Rightarrow> Inl UnboundLocalError
         | Scanned (Some (min_distance, min_node, min_node_vec)) \<Rightarrow>
             if min_distance \<noteq> 0
             then let new_node_unit_vec = vec_div min_node_vec min_distance;
                      new_node_val = vec_add (val (node_list ! min_node))
                                       (vec_mul new_node_unit_vec (step_size cfg))
                  in if collision (obstacle_list cfg) new_node_val
                     then Inr (False, node_list)
                     else Inr (False, attach node_list min_node new_node_val)
             else Inr (False, node_list))"

subsection \<open>The growth loop and the planner (lines 68 to 121)\<close>

datatype outcome = Completed "tree_node list" | PathNotFound "tree_node list"

text \<open>
  The \<open>while\<close> loop is bounded by the length of the node list only, so it need not end:
  \<open>None\<close> is a run that never returns. \<open>np.random.randint(-m, m)\<close> raises
  \<open>ValueError\<close> unless \<open>-m < m\<close>.
\<close>

partial_function (option) rrt_loop ::
  "config \<Rightarrow> (nat \<Rightarrow> int \<times> int) \<Rightarrow> nat \<Rightarrow> tree_node list \<Rightarrow> (error + outcome) option" where
  "rrt_loop cfg rnd k node_list =
     (if int (length node_list) < node_limit cfg
      then if fst (map_size cfg) \<le> 0 \<or> snd (map_size cfg) \<le> 0
           then Some (Inl ValueError)
           else case loop_body cfg (rnd k) node_list of
                  Inl e \<Rightarrow> Some (Inl e)
                | Inr (completed, node_list') \<Rightarrow>
                    if completed then Some (Inr (Completed node_list'))
                    else rrt_loop cfg rnd (Suc k) node_list'
      else Some (Inr (PathNotFound node_list)))"

definition run_rrt_2D :: "config \<Rightarrow> (nat \<Rightarrow> int \<times> int) \<Rightarrow> (error + outcome) option" where
  "run_rrt_2D cfg rnd = rrt_loop cfg rnd 0 [TreeNode (start_position cfg) None]"

subsection \<open>The published path (lines 213 to 222)\<close>

partial_function (option) walk_parents ::
  "tree_node list \<Rightarrow> nat \<Rightarrow> position list \<Rightarrow> position list option" where
  "walk_parents node_list current_node poses =
     (case parent (node_list ! current_node) of
        None \<Rightarrow> Some poses
      | Some p \<Rightarrow> walk_parents node_list p (poses @ [val (node_list ! current_node)]))"

definition publish_path :: "tree_node list \<Rightarrow> (error + position list) option" where
  "publish_path node_list =
     (if node_list = [] then Some (Inl IndexError)
      else map_option Inr (walk_parents node_list (length node_list - 1) []))"

subsection \<open>The plotted path (lines 247 to 255)\<close>

text \<open>
  The last loop of \<open>plot_rrt_2D\<close> walks the same parent links and draws, for every node
  with a parent, the segment from the node to its parent.
\<close>

partial_function (option) walk_segments ::
  "tree_node list \<Rightarrow> nat \<Rightarrow> (position \<times> position) list \<Rightarrow> (position \<times> position) list option" where
  "walk_segments node_list current_node segments =
     (case parent (node_list ! current_node) of
        None \<Rightarrow> Some segments
      | Some p \<Rightarrow>
          walk_segments node_list p
            (segments @ [(val (node_list ! current_node), val (node_list ! p))]))"

definition plot_rrt_2D_path :: "tree_node list \<Rightarrow> (error + (position \<times> position) list) option" where
  "plot_rrt_2D_path node_list =
     (if node_list = [] then Some (Inl IndexError)
      else map_option Inr (walk_segments node_list (length node_list - 1) []))"

section \<open>Properties of the planner\<close>

subsection \<open>The states of a run\<close>

text \<open>
  \<open>during_run cfg rnd k completed node_list\<close>: after \<open>k\<close> passes of the \<open>while\<close> loop
  of \<open>run_rrt_2D\<close> the node list is \<open>node_list\<close> and the flag \<open>completed\<close> is as given.
  A pass is made only while the flag is unset and the loop condition holds.
\<close>

inductive during_run :: "config \<Rightarrow> (nat \<Rightarrow> int \<times> int) \<Rightarrow> nat \<Rightarrow> bool \<Rightarrow> tree_node list \<Rightarrow> bool"
  for cfg :: config and rnd :: "nat \<Rightarrow> int \<times> int" where
  started: "during_run cfg rnd 0 False [TreeNode (start_position cfg) None]"
| pass: "during_run cfg rnd k False node_list \<Longrightarrow>
         int (length node_list) < node_limit cfg \<Longrightarrow>
         0 < fst (map_size cfg) \<Longrightarrow> 0 < snd (map_size cfg) \<Longrightarrow>
         loop_body cfg (rnd k) node_list = Inr (completed, node_list') \<Longrightarrow>
         during_run cfg rnd (Suc k) completed node_list'"

definition finished_in_run :: "config \<Rightarrow> (nat \<Rightarrow> int \<times> int) \<Rightarrow> error + outcome \<Rightarrow> bool" where
  "finished_in_run cfg rnd r \<longleftrightarrow>
     (case r of
        Inl e \<Rightarrow> True
      | Inr (Completed ns) \<Rightarrow> \<exists>k'. during_run cfg rnd k' True ns
      | Inr (PathNotFound ns) \<Rightarrow> \<exists>k'. during_run cfg rnd k' False ns)"

fun nodes_of :: "outcome \<Rightarrow> tree_node list" where
  "nodes_of (Completed node_list) = node_list"
| "nodes_of (PathNotFound node_list) = node_list"

subsection \<open>Well-formed trees\<close>

text \<open>
  The root is the first node, has no parent and sits at the start position; every other
  node has a parent earlier in the list, in whose children it occurs exactly once; and
  every child listed by a node is a node of the list that names this node as its parent.
  \<open>climb n node_list i\<close> follows at most \<open>n\<close> parent links from node \<open>i\<close>.
\<close>

definition well_formed :: "config \<Rightarrow> tree_node list \<Rightarrow> bool" where
  "well_formed cfg node_list \<longleftrightarrow>
     node_list \<noteq> [] \<and>
     parent (node_list ! 0) = None \<and>
     val (node_list ! 0) = start_position cfg \<and>
     (\<forall>i<length node_list. 0 < i \<longrightarrow>
        (\<exists>p<i. parent (node_list ! i) = Some p \<and> count_list (children (node_list ! p)) i = 1)) \<and>
     (\<forall>p<length node_list. \<forall>c \<in> set (children (node_list ! p)).
        c < length node_list \<and> parent (node_list ! c) = Some p)"

fun climb :: "nat \<Rightarrow> tree_node list \<Rightarrow> nat \<Rightarrow> nat" where
  "climb 0 node_list i = i"
| "climb (Suc n) node_list i =
     (case parent (node_list ! i) of None \<Rightarrow> i | Some p \<Rightarrow> climb n node_list p)"

text \<open>
  A steered node is free of every obstacle and lies one step from its parent; a grown
  tree is a well-formed tree whose nodes other than the root are steered.
\<close>

definition steered :: "config \<Rightarrow> tree_node list \<Rightarrow> nat \<Rightarrow> bool" where
  "steered cfg node_list i \<longleftrightarrow>
     \<not> collision (obstacle_list cfg) (val (node_list ! i)) \<and>
     (\<exists>p<i. parent (node_list ! i) = Some p \<and>
        (0 \<le> step_size cfg \<longrightarrow>
           linalg_norm (vec_sub (val (node_list ! i)) (val (node_list ! p))) = step_size cfg))"

definition grown :: "config \<Rightarrow> tree_node list \<Rightarrow> bool" where
  "grown cfg node_list \<longleftrightarrow>
     well_formed cfg node_list \<and> (\<forall>i<length node_list. 0 < i \<longrightarrow> steered cfg node_list i)"

subsection \<open>The nodes of a published path, and idle passes\<close>

text \<open>
  \<open>path_nodes n node_list i\<close> lists the nodes that \<open>walk_parents\<close> visits from node
  \<open>i\<close> before it reaches a node without parent, at most \<open>n\<close> of them.
  \<open>idle_passes n cfg rnd k node_list\<close> counts, among the next \<open>n\<close> passes of the
  loop, those that leave the node list as it is.
\<close>

fun path_nodes :: "nat \<Rightarrow> tree_node list \<Rightarrow> nat \<Rightarrow> nat list" where
  "path_nodes 0 node_list i = []"
| "path_nodes (Suc n) node_list i =
     (case parent (node_list ! i) of None \<Rightarrow> [] | Some p \<Rightarrow> i # path_nodes n node_list p)"

fun idle_passes :: "nat \<Rightarrow> config \<Rightarrow> (nat \<Rightarrow> int \<times> int) \<Rightarrow> nat \<Rightarrow> tree_node list \<Rightarrow> nat" where
  "idle_passes 0 cfg rnd k node_list = 0"
| "idle_passes (Suc n) cfg rnd k node_list =
     (if int (length node_list) < node_limit cfg
      then case loop_body cfg (rnd k) node_list of
             Inl e \<Rightarrow> 0
           | Inr (completed, node_list') \<Rightarrow>
               if completed then 0
               else (if length node_list' = length node_list then 1 else 0)
                    + idle_passes n cfg rnd (Suc k) node_list'
      else 0)"

subsection \<open>Example configurations\<close>

text \<open>
  \<open>demo_config\<close> is the configuration of the source with a nearer goal and a longer
  step; \<open>blocked_config\<close> has one circle, centred at the goal, that covers the whole
  map; \<open>goal_in_circle_config\<close> is the configuration of the source with start and goal
  moved, the goal into the first obstacle; \<open>overshoot_config\<close> has a step longer than
  the way to the sample; \<open>near_goal_config\<close> is the configuration of the source with
  the goal moved to \<open>(0.3, 0)\<close>, within the goal tolerance of the start. Every draw of
  \<open>demo_samples\<close> is the point \<open>(9, 0)\<close>.
\<close>

definition demo_samples :: "nat \<Rightarrow> int \<times> int" where
  "demo_samples k = (9, 0)"

definition demo_config :: config where
  "demo_config = \<lparr>start_position = (0, 0), goal_position = (9 / 4, 0), map_size = (10, 10),
     node_limit = 1000, goal_tolerance = 1 / 2, step_size = 1,
     obstacle_list = [Circle 1 1 1, Rectangle (- 1) (- 1) 1 1 0]\<rparr>"

definition demo_tree :: "tree_node list" where
  "demo_tree =
     [\<lparr>val = (0, 0), parent = None, children = [1]\<rparr>,
      \<lparr>val = (1, 0), parent = Some 0, children = [2]\<rparr>,
      \<lparr>val = (2, 0), parent = Some 1, children = [3]\<rparr>,
      \<lparr>val = (9 / 4, 0), parent = Some 2, children = []\<rparr>]"

definition blocked_config :: config where
  "blocked_config = \<lparr>start_position = (0, 0), goal_position = (3, 0), map_size = (10, 10),
     node_limit = 5, goal_tolerance = 1 / 2, step_size = 1 / 5,
     obstacle_list = [Circle 3 0 100]\<rparr>"

definition goal_in_circle_config :: config where
  "goal_in_circle_config = \<lparr>start_position = (1, 0), goal_position = (1, 3 / 10),
     map_size = (10, 10), node_limit = 1000, goal_tolerance = 1 / 2, step_size = 1 / 5,
     obstacle_list = [Circle 1 1 1, Rectangle (- 1) (- 1) 1 1 0]\<rparr>"

definition overshoot_config :: config where
  "overshoot_config = \<lparr>start_position = (17 / 2, 0), goal_position = (- 9, 0), map_size = (10, 10),
     node_limit = 2, goal_tolerance = 1 / 2, step_size = 2, obstacle_list = []\<rparr>"

definition near_goal_config :: config where
  "near_goal_config = \<lparr>start_position = (0, 0), goal_position = (3 / 10, 0),
     map_size = (10, 10), node_limit = 1000, goal_tolerance = 1 / 2, step_size = 1 / 5,
     obstacle_list = [Circle 1 1 1, Rectangle (- 1) (- 1) 1 1 0]\<rparr>"

definition near_goal_tree :: "tree_node list" where
  "near_goal_tree =
     [\<lparr>val = (0, 0), parent = None, children = [1]\<rparr>,
      \<lparr>val = (3 / 10, 0), parent = Some 0, children = []\<rparr>]"

section \<open>Lemmas\<close>

subsection \<open>Collision, attachment and the scan\<close>

lemma collision_iff: "collision obstacles p \<longleftrightarrow> (\<exists>ob \<in> set obstacles. collides ob p)"
  by (induction obstacles) auto

lemma length_attach: "length (attach node_list i v) = Suc (length node_list)"
  by (simp add: attach_def)

lemma attach_nth_new: "attach node_list i v ! length node_list = TreeNode v (Some i)"
  by (simp add: attach_def nth_append)

lemma attach_nth_old:
  "j < length node_list \<Longrightarrow>
   attach node_list i v ! j =
     (if j = i then add_child (node_list ! j) (length node_list) else node_list ! j)"
  by (simp add: attach_def nth_append)

lemma attach_val_old: "j < length node_list \<Longrightarrow> val (attach node_list i v ! j) = val (node_list ! j)"
  by (simp add: attach_nth_old add_child_def)

lemma attach_parent_old:
  "j < length node_list \<Longrightarrow> parent (attach node_list i v ! j) = parent (node_list ! j)"
  by (simp add: attach_nth_old add_child_def)

lemma attach_children_old:
  "j < length node_list \<Longrightarrow>
   children (attach node_list i v ! j) =
     (if j = i then children (node_list ! j) @ [length node_list] else children (node_list ! j))"
  by (simp add: attach_nth_old add_child_def)

lemma attach_new_fields:
  "val (attach node_list i v ! length node_list) = v"
  "parent (attach node_list i v ! length node_list) = Some i"
  "children (attach node_list i v ! length node_list) = []"
  by (simp_all add: attach_nth_new TreeNode_def)

lemma last_attach: "last (attach node_list p v) = TreeNode v (Some p)"
  by (simp add: attach_def)

lemma scan_nodes_Reached:
  "scan_nodes cfg rp ns i best = Reached j \<Longrightarrow>
   \<exists>m<length ns. j = i + m \<and>
     linalg_norm (vec_sub (goal_position cfg) (val (ns ! m))) < goal_tolerance cfg"
proof (induction ns arbitrary: i best)
  case Nil
  then show ?case by simp
next
  case (Cons node rest)
  show ?case
  proof (cases "linalg_norm (vec_sub (goal_position cfg) (val node)) < goal_tolerance cfg")
    case True
    with Cons.prems show ?thesis by auto
  next
    case False
    with Cons.prems obtain b where "scan_nodes cfg rp rest (Suc i) b = Reached j"
      by (simp add: Let_def)
    from Cons.IH [OF this] obtain m where "m < length rest" "j = Suc i + m"
      "linalg_norm (vec_sub (goal_position cfg) (val (rest ! m))) < goal_tolerance cfg"
      by blast
    then have "Suc m < length (node # rest) \<and> j = i + Suc m \<and>
      linalg_norm (vec_sub (goal_position cfg) (val ((node # rest) ! Suc m))) < goal_tolerance cfg"
      by simp
    then show ?thesis by blast
  qed
qed

lemma scan_nodes_Scanned:
  "scan_nodes cfg rp ns i best = Scanned (Some (d, j, v)) \<Longrightarrow>
   best = Some (d, j, v) \<or>
   (\<exists>m<length ns. j = i + m \<and> v = vec_sub rp (val (ns ! m)) \<and> d = linalg_norm v)"
proof (induction ns arbitrary: i best)
  case Nil
  then show ?case by simp
next
  case (Cons node rest)
  let ?v = "vec_sub rp (val node)"
  let ?b = "if closer (linalg_norm ?v) best then Some (linalg_norm ?v, i, ?v) else best"
  from Cons.prems have "scan_nodes cfg rp rest (Suc i) ?b = Scanned (Some (d, j, v))"
    by (simp add: Let_def split: if_splits)
  from Cons.IH [OF this] consider (old) "?b = Some (d, j, v)"
    | (new) m where "m < length rest" "j = Suc i + m" "v = vec_sub rp (val (rest ! m))"
        "d = linalg_norm v"
    by blast
  then show ?case
  proof cases
    case old
    then have "best = Some (d, j, v) \<or> (j = i + 0 \<and> v = ?v \<and> d = linalg_norm v)"
      by (auto split: if_splits)
    then show ?thesis by auto
  next
    case new
    then have "Suc m < length (node # rest) \<and> j = i + Suc m \<and>
      v = vec_sub rp (val ((node # rest) ! Suc m)) \<and> d = linalg_norm v"
      by simp
    then show ?thesis by blast
  qed
qed

lemma scan_nodes_None:
  "scan_nodes cfg rp ns i best = Scanned None \<Longrightarrow> ns = [] \<and> best = None"
proof (induction ns arbitrary: i best)
  case Nil
  then show ?case by simp
next
  case (Cons node rest)
  let ?v = "vec_sub rp (val node)"
  let ?b = "if closer (linalg_norm ?v) best then Some (linalg_norm ?v, i, ?v) else best"
  from Cons.prems have "scan_nodes cfg rp rest (Suc i) ?b = Scanned None"
    by (simp add: Let_def split: if_splits)
  from Cons.IH [OF this] have "?b = None" by simp
  then show ?case by (cases best) (auto split: if_splits)
qed

lemma scan_nodes_first:
  "\<forall>m \<in> set pre. \<not> linalg_norm (vec_sub (goal_position cfg) (val m)) < goal_tolerance cfg \<Longrightarrow>
   linalg_norm (vec_sub (goal_position cfg) (val node)) < goal_tolerance cfg \<Longrightarrow>
   scan_nodes cfg rp (pre @ node # post) i best = Reached (i + length pre)"
  by (induction pre arbitrary: i best) (simp_all add: Let_def)

lemma linalg_norm_unit_step:
  assumes "d = linalg_norm v" "d \<noteq> 0" "0 \<le> s"
  shows "linalg_norm (vec_sub (vec_add a (vec_mul (vec_div v d) s)) a) = s"
proof -
  have dd: "d\<^sup>2 = (fst v)\<^sup>2 + (snd v)\<^sup>2"
    using assms(1) by (simp add: linalg_norm_def)
  have "vec_sub (vec_add a (vec_mul (vec_div v d) s)) a = (fst v / d * s, snd v / d * s)"
    by (simp add: vec_sub_def vec_add_def vec_mul_def vec_div_def)
  moreover have "(fst v / d * s)\<^sup>2 + (snd v / d * s)\<^sup>2 = (s / d)\<^sup>2 * ((fst v)\<^sup>2 + (snd v)\<^sup>2)"
    by (simp add: power2_eq_square algebra_simps)
  moreover have "(s / d)\<^sup>2 * d\<^sup>2 = s\<^sup>2"
    using assms(2) by (simp add: power_divide)
  ultimately have "linalg_norm (vec_sub (vec_add a (vec_mul (vec_div v d) s)) a) = sqrt (s\<^sup>2)"
    using dd by (simp add: linalg_norm_def)
  then show ?thesis using assms(3) by simp
qed

subsection \<open>One pass\<close>

lemma loop_body_cases:
  assumes "loop_body cfg sample node_list = Inr (completed, node_list')"
  shows "(\<not> completed \<and> node_list' = node_list) \<or>
         (\<exists>p<length node_list.
            if completed
            then node_list' = attach node_list p (goal_position cfg) \<and>
                 linalg_norm (vec_sub (goal_position cfg) (val (node_list ! p))) < goal_tolerance cfg
            else \<exists>v. node_list' = attach node_list p v \<and>
                 \<not> collision (obstacle_list cfg) v \<and>
                 (0 \<le> step_size cfg \<longrightarrow> linalg_norm (vec_sub v (val (node_list ! p))) = step_size cfg))"
proof -
  let ?rp = "(real_of_int (fst sample), real_of_int (snd sample))"
  show ?thesis
  proof (cases "scan_nodes cfg ?rp node_list 0 None")
    case (Reached i)
    from scan_nodes_Reached [OF this] have "i < length node_list"
      "linalg_norm (vec_sub (goal_position cfg) (val (node_list ! i))) < goal_tolerance cfg"
      by auto
    moreover from assms Reached have "completed" "node_list' = attach node_list i (goal_position cfg)"
      by (simp_all add: loop_body_def)
    ultimately show ?thesis by (intro disjI2 exI [of _ i]) simp
  next
    case (Scanned best)
    show ?thesis
    proof (cases best)
      case None
      with assms Scanned show ?thesis by (simp add: loop_body_def)
    next
      case (Some t)
      obtain d j v where t: "t = (d, j, v)" by (cases t)
      from scan_nodes_Scanned [of cfg ?rp node_list 0 None d j v] Scanned Some t
      have j: "j < length node_list" and v: "v = vec_sub ?rp (val (node_list ! j))"
        and d: "d = linalg_norm v"
        by auto
      let ?new = "vec_add (val (node_list ! j)) (vec_mul (vec_div v d) (step_size cfg))"
      show ?thesis
      proof (cases "d \<noteq> 0 \<and> \<not> collision (obstacle_list cfg) ?new")
        case True
        with assms Scanned Some t have nc: "\<not> completed" and nl: "node_list' = attach node_list j ?new"
          by (simp_all add: loop_body_def Let_def)
        have st: "0 \<le> step_size cfg \<longrightarrow>
          linalg_norm (vec_sub ?new (val (node_list ! j))) = step_size cfg"
          using linalg_norm_unit_step [OF d] True by blast
        have "\<exists>w. node_list' = attach node_list j w \<and> \<not> collision (obstacle_list cfg) w \<and>
          (0 \<le> step_size cfg \<longrightarrow> linalg_norm (vec_sub w (val (node_list ! j))) = step_size cfg)"
          using nl st True by blast
        with nc j show ?thesis by (intro disjI2 exI [of _ j]) simp
      next
        case False
        with assms Scanned Some t have "\<not> completed" "node_list' = node_list"
          by (auto simp: loop_body_def Let_def split: if_splits)
        then show ?thesis by simp
      qed
    qed
  qed
qed

lemma loop_body_attach:
  assumes "loop_body cfg sample node_list = Inr (completed, node_list')"
  shows "node_list' = node_list \<or> (\<exists>p<length node_list. \<exists>v. node_list' = attach node_list p v)"
proof -
  from loop_body_cases [OF assms] show ?thesis
  proof
    assume "\<not> completed \<and> node_list' = node_list"
    then show ?thesis by simp
  next
    assume "\<exists>p<length node_list.
            if completed
            then node_list' = attach node_list p (goal_position cfg) \<and>
                 linalg_norm (vec_sub (goal_position cfg) (val (node_list ! p))) < goal_tolerance cfg
            else \<exists>v. node_list' = attach node_list p v \<and>
                 \<not> collision (obstacle_list cfg) v \<and>
                 (0 \<le> step_size cfg \<longrightarrow> linalg_norm (vec_sub v (val (node_list ! p))) = step_size cfg)"
    then obtain p where p: "p < length node_list" and
      c: "if completed
            then node_list' = attach node_list p (goal_position cfg) \<and>
                 linalg_norm (vec_sub (goal_position cfg) (val (node_list ! p))) < goal_tolerance cfg
            else \<exists>v. node_list' = attach node_list p v \<and>
                 \<not> collision (obstacle_list cfg) v \<and>
                 (0 \<le> step_size cfg \<longrightarrow> linalg_norm (vec_sub v (val (node_list ! p))) = step_size cfg)"
      by blast
    have "\<exists>v. node_list' = attach node_list p v"
    proof (cases completed)
      case True
      with c have "node_list' = attach node_list p (goal_position cfg)" by simp
      then show ?thesis ..
    next
      case False
      with c obtain v where "node_list' = attach node_list p v" by auto
      then show ?thesis ..
    qed
    with p show ?thesis by blast
  qed
qed

lemma loop_body_idle:
  assumes "scan_nodes cfg (real_of_int (fst sample), real_of_int (snd sample)) node_list 0 None =
      Scanned (Some (d, i, vec))"
    and "d = 0 \<or> collision (obstacle_list cfg)
       (vec_add (val (node_list ! i)) (vec_mul (vec_div vec d) (step_size cfg)))"
  shows "loop_body cfg sample node_list = Inr (False, node_list)"
  using assms by (auto simp: loop_body_def Let_def)

lemma loop_body_Inl:
  "loop_body cfg sample node_list = Inl e \<Longrightarrow> node_list = []"
proof -
  assume a: "loop_body cfg sample node_list = Inl e"
  let ?rp = "(real_of_int (fst sample), real_of_int (snd sample))"
  from a have "scan_nodes cfg ?rp node_list 0 None = Scanned None"
    by (auto simp: loop_body_def Let_def split: scan_result.splits option.splits if_splits)
  from scan_nodes_None [OF this] show ?thesis by simp
qed

subsection \<open>Invariants of the loop\<close>

lemma well_formed_start: "well_formed cfg [TreeNode (start_position cfg) None]"
  by (simp add: well_formed_def TreeNode_def)

lemma well_formed_attach:
  assumes wf: "well_formed cfg node_list" and p: "p < length node_list"
  shows "well_formed cfg (attach node_list p v)"
proof -
  let ?n = "length node_list"
  let ?nl = "attach node_list p v"
  from wf have ne: "node_list \<noteq> []" and root: "parent (node_list ! 0) = None"
    "val (node_list ! 0) = start_position cfg"
    and par: "\<And>i. i < ?n \<Longrightarrow> 0 < i \<Longrightarrow>
      \<exists>q<i. parent (node_list ! i) = Some q \<and> count_list (children (node_list ! q)) i = 1"
    and chi: "\<And>q c. q < ?n \<Longrightarrow> c \<in> set (children (node_list ! q)) \<Longrightarrow>
      c < ?n \<and> parent (node_list ! c) = Some q"
    by (auto simp: well_formed_def)
  from ne have n0: "0 < ?n" by simp
  have 1: "?nl \<noteq> []" by (simp add: attach_def)
  have 2: "parent (?nl ! 0) = None" "val (?nl ! 0) = start_position cfg"
    using n0 root by (simp_all add: attach_parent_old attach_val_old)
  have fresh: "?n \<notin> set (children (node_list ! p))"
    using chi [OF p] by auto
  have 3: "\<exists>q<i. parent (?nl ! i) = Some q \<and> count_list (children (?nl ! q)) i = 1"
    if i: "i < length ?nl" "0 < i" for i
  proof (cases "i < ?n")
    case True
    from par [OF True i(2)] obtain q where q: "q < i" "parent (node_list ! i) = Some q"
      "count_list (children (node_list ! q)) i = 1" by blast
    have "q < ?n" using q(1) True by simp
    then have "count_list (children (?nl ! q)) i = 1"
      using q(3) True by (auto simp: attach_children_old)
    with q True show ?thesis by (auto simp: attach_parent_old)
  next
    case False
    with i have eq: "i = ?n" by (simp add: length_attach)
    have "count_list (children (?nl ! p)) ?n = 1"
      using p fresh by (simp add: attach_children_old count_list_0_iff)
    with p eq show ?thesis by (auto simp: attach_new_fields)
  qed
  have 4: "c < length ?nl \<and> parent (?nl ! c) = Some q"
    if q: "q < length ?nl" and c: "c \<in> set (children (?nl ! q))" for q c
  proof (cases "q < ?n")
    case True
    show ?thesis
    proof (cases "c = ?n")
      case True
      with c \<open>q < ?n\<close> chi [of q c] have "q = p"
        by (auto simp: attach_children_old split: if_splits)
      with True show ?thesis by (simp add: length_attach attach_new_fields)
    next
      case False
      with c \<open>q < ?n\<close> have "c \<in> set (children (node_list ! q))"
        by (auto simp: attach_children_old split: if_splits)
      from chi [OF \<open>q < ?n\<close> this] show ?thesis
        by (simp add: length_attach attach_parent_old)
    qed
  next
    case False
    with q have "q = ?n" by (simp add: length_attach)
    with c show ?thesis by (simp add: attach_new_fields)
  qed
  from 1 2 3 4 show ?thesis unfolding well_formed_def by blast
qed

lemma steered_attach_old:
  "i < length node_list \<Longrightarrow> steered cfg (attach node_list p v) i = steered cfg node_list i"
  by (auto simp: steered_def attach_val_old attach_parent_old)

lemma grown_attach:
  assumes "grown cfg node_list" "p < length node_list"
    "\<not> collision (obstacle_list cfg) v"
    "0 \<le> step_size cfg \<longrightarrow> linalg_norm (vec_sub v (val (node_list ! p))) = step_size cfg"
  shows "grown cfg (attach node_list p v)"
proof -
  have "steered cfg (attach node_list p v) i" if "i < length (attach node_list p v)" "0 < i" for i
  proof (cases "i < length node_list")
    case True
    with assms(1) that(2) show ?thesis by (simp add: steered_attach_old grown_def)
  next
    case False
    with that have "i = length node_list" by (simp add: length_attach)
    with assms(2,3,4) show ?thesis
      by (auto simp: steered_def attach_new_fields attach_val_old)
  qed
  with well_formed_attach [of cfg node_list p v] assms(1,2) show ?thesis
    by (simp add: grown_def)
qed

lemma during_run_shape:
  "during_run cfg rnd k completed node_list \<Longrightarrow>
   (if completed
    then \<exists>before p. grown cfg before \<and> p < length before \<and>
           linalg_norm (vec_sub (goal_position cfg) (val (before ! p))) < goal_tolerance cfg \<and>
           node_list = attach before p (goal_position cfg)
    else grown cfg node_list)"
proof (induction rule: during_run.induct)
  case started
  show ?case using well_formed_start [of cfg] by (simp add: grown_def)
next
  case (pass k node_list completed node_list')
  from pass.IH have g: "grown cfg node_list" by simp
  from loop_body_cases [OF pass.hyps(5)] show ?case
  proof
    assume "\<not> completed \<and> node_list' = node_list"
    with g show ?thesis by simp
  next
    assume "\<exists>p<length node_list.
            if completed
            then node_list' = attach node_list p (goal_position cfg) \<and>
                 linalg_norm (vec_sub (goal_position cfg) (val (node_list ! p))) < goal_tolerance cfg
            else \<exists>v. node_list' = attach node_list p v \<and>
                 \<not> collision (obstacle_list cfg) v \<and>
                 (0 \<le> step_size cfg \<longrightarrow> linalg_norm (vec_sub v (val (node_list ! p))) = step_size cfg)"
    then obtain p where p: "p < length node_list" and
      c: "if completed
            then node_list' = attach node_list p (goal_position cfg) \<and>
                 linalg_norm (vec_sub (goal_position cfg) (val (node_list ! p))) < goal_tolerance cfg
            else \<exists>v. node_list' = attach node_list p v \<and>
                 \<not> collision (obstacle_list cfg) v \<and>
                 (0 \<le> step_size cfg \<longrightarrow> linalg_norm (vec_sub v (val (node_list ! p))) = step_size cfg)"
      by blast
    show ?thesis
    proof (cases completed)
      case True
      with c g p show ?thesis by auto
    next
      case False
      with c obtain v where "node_list' = attach node_list p v"
        "\<not> collision (obstacle_list cfg) v"
        "0 \<le> step_size cfg \<longrightarrow> linalg_norm (vec_sub v (val (node_list ! p))) = step_size cfg"
        by auto
      with grown_attach [OF g p] False show ?thesis by simp
    qed
  qed
qed

lemma during_run_well_formed:
  assumes "during_run cfg rnd k completed node_list"
  shows "well_formed cfg node_list"
proof (cases completed)
  case True
  with during_run_shape [OF assms] show ?thesis
    by (auto simp: grown_def intro: well_formed_attach)
next
  case False
  with during_run_shape [OF assms] show ?thesis by (simp add: grown_def)
qed

lemma rrt_loop_during_run:
  assumes "rrt_loop cfg rnd k node_list = Some r"
  shows "during_run cfg rnd k False node_list \<longrightarrow> finished_in_run cfg rnd r"
proof (rule rrt_loop.raw_induct
    [where P = "\<lambda>cfg rnd k node_list r.
       during_run cfg rnd k False node_list \<longrightarrow> finished_in_run cfg rnd r", OF _ assms])
  fix loop :: "config \<Rightarrow> (nat \<Rightarrow> int \<times> int) \<Rightarrow> nat \<Rightarrow> tree_node list \<Rightarrow> (error + outcome) option"
  fix cfg rnd k node_list r
  assume IH: "\<And>cfg rnd k node_list r. loop cfg rnd k node_list = Some r \<Longrightarrow>
    during_run cfg rnd k False node_list \<longrightarrow> finished_in_run cfg rnd r"
  assume eq: "(if int (length node_list) < node_limit cfg
      then if fst (map_size cfg) \<le> 0 \<or> snd (map_size cfg) \<le> 0
           then Some (Inl ValueError)
           else case loop_body cfg (rnd k) node_list of
                  Inl e \<Rightarrow> Some (Inl e)
                | Inr (completed, node_list') \<Rightarrow>
                    if completed then Some (Inr (Completed node_list'))
                    else loop cfg rnd (Suc k) node_list'
      else Some (Inr (PathNotFound node_list))) = Some r"
  show "during_run cfg rnd k False node_list \<longrightarrow> finished_in_run cfg rnd r"
  proof
    assume dr0: "during_run cfg rnd k False node_list"
    show "finished_in_run cfg rnd r"
    proof (cases "int (length node_list) < node_limit cfg")
      case False
      with eq have "r = Inr (PathNotFound node_list)" by simp
      with dr0 show ?thesis by (auto simp: finished_in_run_def)
    next
      case lim: True
      show ?thesis
      proof (cases "fst (map_size cfg) \<le> 0 \<or> snd (map_size cfg) \<le> 0")
        case True
        with lim eq show ?thesis by (auto simp: finished_in_run_def)
      next
        case map: False
        show ?thesis
        proof (cases "loop_body cfg (rnd k) node_list")
          case (Inl e)
          with lim map eq show ?thesis by (auto simp: finished_in_run_def)
        next
          case (Inr b)
          obtain c nl' where b: "b = (c, nl')" by (cases b)
          from map have m: "0 < fst (map_size cfg)" "0 < snd (map_size cfg)" by auto
          have dr: "during_run cfg rnd (Suc k) c nl'"
            using during_run.pass [OF dr0 lim m] Inr b by simp
          show ?thesis
          proof (cases c)
            case True
            with lim map Inr b eq have "r = Inr (Completed nl')" by simp
            with dr True show ?thesis by (auto simp: finished_in_run_def)
          next
            case False
            with lim map Inr b eq have "loop cfg rnd (Suc k) nl' = Some r" by simp
            from IH [OF this] dr False show ?thesis by simp
          qed
        qed
      qed
    qed
  qed
qed

lemma run_rrt_2D_during_run:
  "run_rrt_2D cfg rnd = Some r \<Longrightarrow> finished_in_run cfg rnd r"
  using rrt_loop_during_run [of cfg rnd 0 "[TreeNode (start_position cfg) None]" r]
    during_run.started [of cfg rnd]
  by (simp add: run_rrt_2D_def)

lemma completed_during_run:
  "run_rrt_2D cfg rnd = Some (Inr (Completed node_list)) \<Longrightarrow>
   \<exists>k. during_run cfg rnd k True node_list"
  using run_rrt_2D_during_run [of cfg rnd "Inr (Completed node_list)"]
  by (simp add: finished_in_run_def)

lemma well_formed_parent:
  "well_formed cfg node_list \<Longrightarrow> i < length node_list \<Longrightarrow> 0 < i \<Longrightarrow>
   \<exists>p<i. parent (node_list ! i) = Some p"
  by (auto simp: well_formed_def)

lemma well_formed_root: "well_formed cfg node_list \<Longrightarrow> parent (node_list ! 0) = None"
  by (simp add: well_formed_def)

lemma climb_root:
  assumes wf: "well_formed cfg node_list"
  shows "i < length node_list \<Longrightarrow> i \<le> n \<Longrightarrow> climb n node_list i = 0"
proof (induction i arbitrary: n rule: less_induct)
  case (less i)
  show ?case
  proof (cases "i = 0")
    case True
    with well_formed_root [OF wf] show ?thesis by (cases n) simp_all
  next
    case False
    with well_formed_parent [OF wf less.prems(1)] obtain p where
      p: "p < i" "parent (node_list ! i) = Some p" by auto
    from False less.prems(2) obtain n' where n: "n = Suc n'" by (cases n) auto
    with p less.prems have "climb n' node_list p = 0"
      by (intro less.IH) auto
    with n p show ?thesis by simp
  qed
qed

subsection \<open>The walk along the parents\<close>

lemma walk_parents_path_nodes:
  assumes wf: "well_formed cfg node_list"
  shows "i < length node_list \<Longrightarrow> i \<le> n \<Longrightarrow>
    walk_parents node_list i poses =
      Some (poses @ map (\<lambda>j. val (node_list ! j)) (path_nodes n node_list i))"
proof (induction i arbitrary: n poses rule: less_induct)
  case (less i)
  show ?case
  proof (cases "i = 0")
    case True
    with well_formed_root [OF wf] show ?thesis
      by (cases n) (simp_all add: walk_parents.simps)
  next
    case False
    with well_formed_parent [OF wf less.prems(1)] obtain p where
      p: "p < i" "parent (node_list ! i) = Some p" by auto
    from False less.prems(2) obtain n' where n: "n = Suc n'" by (cases n) auto
    have "walk_parents node_list p (poses @ [val (node_list ! i)]) =
      Some ((poses @ [val (node_list ! i)]) @
        map (\<lambda>j. val (node_list ! j)) (path_nodes n' node_list p))"
      using p less.prems n by (intro less.IH) auto
    with n p show ?thesis by (subst walk_parents.simps) simp
  qed
qed

lemma path_nodes_chain:
  assumes wf: "well_formed cfg node_list"
  shows "i < length node_list \<Longrightarrow> i \<le> n \<Longrightarrow> 0 < i \<Longrightarrow>
    (let ns = path_nodes n node_list i in
       ns \<noteq> [] \<and> hd ns = i \<and>
       (\<forall>j. Suc j < length ns \<longrightarrow> parent (node_list ! (ns ! j)) = Some (ns ! Suc j)) \<and>
       parent (node_list ! last ns) = Some 0 \<and> 0 \<notin> set ns \<and>
       (\<forall>m \<in> set ns. m < length node_list))"
proof (induction i arbitrary: n rule: less_induct)
  case (less i)
  from well_formed_parent [OF wf less.prems(1,3)] obtain p where
    p: "p < i" "parent (node_list ! i) = Some p" by auto
  from less.prems obtain n' where n: "n = Suc n'" by (cases n) auto
  have unf: "path_nodes n node_list i = i # path_nodes n' node_list p"
    using n p by simp
  show ?case
  proof (cases "p = 0")
    case True
    have "path_nodes n' node_list 0 = []"
      using well_formed_root [OF wf] by (cases n') simp_all
    with unf True p less.prems show ?thesis by (simp add: Let_def)
  next
    case False
    have "let ns = path_nodes n' node_list p in
       ns \<noteq> [] \<and> hd ns = p \<and>
       (\<forall>j. Suc j < length ns \<longrightarrow> parent (node_list ! (ns ! j)) = Some (ns ! Suc j)) \<and>
       parent (node_list ! last ns) = Some 0 \<and> 0 \<notin> set ns \<and>
       (\<forall>m \<in> set ns. m < length node_list)"
      using p less.prems n False by (intro less.IH) auto
    then obtain js where js: "path_nodes n' node_list p = js" "js \<noteq> []" "hd js = p"
      "\<forall>j. Suc j < length js \<longrightarrow> parent (node_list ! (js ! j)) = Some (js ! Suc j)"
      "parent (node_list ! last js) = Some 0" "0 \<notin> set js" "\<forall>m \<in> set js. m < length node_list"
      by (auto simp: Let_def)
    have chain: "parent (node_list ! ((i # js) ! j)) = Some ((i # js) ! Suc j)"
      if "Suc j < length (i # js)" for j
    proof (cases j)
      case 0
      with p js(2,3) show ?thesis by (simp add: hd_conv_nth)
    next
      case (Suc j')
      with that js(4) show ?thesis by simp
    qed
    from unf js chain less.prems show ?thesis by (simp add: Let_def)
  qed
qed

lemma completed_path:
  assumes "during_run cfg rnd k True node_list"
  shows "\<exists>ns. publish_path node_list = Some (Inr (map (\<lambda>j. val (node_list ! j)) ns)) \<and>
     ns \<noteq> [] \<and> hd ns = length node_list - 1 \<and>
     (\<forall>j. Suc j < length ns \<longrightarrow> parent (node_list ! (ns ! j)) = Some (ns ! Suc j)) \<and>
     parent (node_list ! last ns) = Some 0 \<and> 0 \<notin> set ns \<and>
     (\<forall>m \<in> set ns. m < length node_list)"
proof -
  from during_run_shape [OF assms] obtain before p where
    b: "grown cfg before" "p < length before" "node_list = attach before p (goal_position cfg)"
    by auto
  have wf: "well_formed cfg node_list" by (rule during_run_well_formed [OF assms])
  let ?i = "length node_list - 1"
  have "length node_list = Suc (length before)" using b(3) by (simp add: length_attach)
  with b(2) have i: "?i < length node_list" "0 < ?i" by auto
  let ?ns = "path_nodes ?i node_list ?i"
  have "walk_parents node_list ?i [] = Some ([] @ map (\<lambda>j. val (node_list ! j)) ?ns)"
    by (rule walk_parents_path_nodes [OF wf i(1)]) simp
  moreover have "node_list \<noteq> []" using i(1) by auto
  ultimately have "publish_path node_list = Some (Inr (map (\<lambda>j. val (node_list ! j)) ?ns))"
    by (simp add: publish_path_def)
  with path_nodes_chain [OF wf i(1) _ i(2), of ?i] show ?thesis
    by (auto simp: Let_def)
qed

lemma completed_last:
  assumes "during_run cfg rnd k True node_list"
  shows "2 \<le> length node_list \<and> val (last node_list) = goal_position cfg \<and>
     val (node_list ! (length node_list - 1)) = goal_position cfg \<and>
     (\<exists>p<length node_list - 1. parent (last node_list) = Some p \<and>
        linalg_norm (vec_sub (goal_position cfg) (val (node_list ! p))) < goal_tolerance cfg)"
proof -
  from during_run_shape [OF assms] obtain before p where
    b: "grown cfg before" "p < length before" "node_list = attach before p (goal_position cfg)"
    "linalg_norm (vec_sub (goal_position cfg) (val (before ! p))) < goal_tolerance cfg"
    by auto
  have "val (node_list ! p) = val (before ! p)" using b(2,3) by (simp add: attach_val_old)
  with b show ?thesis
    by (auto simp: last_attach TreeNode_def length_attach attach_new_fields
        intro!: exI [of _ p])
qed

text \<open>
  After a completed run \<open>publish_path\<close> returns: the poses are the positions of the
  nodes on the chain of parents from the last node, the root excluded.
\<close>

lemma published_path_shape:
  "run_rrt_2D cfg rnd = Some (Inr (Completed node_list)) \<Longrightarrow>
   \<exists>ns. publish_path node_list = Some (Inr (map (\<lambda>j. val (node_list ! j)) ns)) \<and>
     ns \<noteq> [] \<and> hd ns = length node_list - 1 \<and>
     val (node_list ! hd ns) = goal_position cfg \<and>
     (\<forall>j. Suc j < length ns \<longrightarrow> parent (node_list ! (ns ! j)) = Some (ns ! Suc j)) \<and>
     parent (node_list ! last ns) = Some 0 \<and> 0 \<notin> set ns \<and>
     val (node_list ! 0) = start_position cfg \<and> parent (node_list ! 0) = None"
proof -
  assume "run_rrt_2D cfg rnd = Some (Inr (Completed node_list))"
  from completed_during_run [OF this] obtain k where dr: "during_run cfg rnd k True node_list" ..
  note l = completed_last [OF dr]
  from during_run_well_formed [OF dr]
  have root: "val (node_list ! 0) = start_position cfg" "parent (node_list ! 0) = None"
    by (simp_all add: well_formed_def)
  from completed_path [OF dr] obtain ns where
    ns: "publish_path node_list = Some (Inr (map (\<lambda>j. val (node_list ! j)) ns))"
    "ns \<noteq> []" "hd ns = length node_list - 1"
    "\<forall>j. Suc j < length ns \<longrightarrow> parent (node_list ! (ns ! j)) = Some (ns ! Suc j)"
    "parent (node_list ! last ns) = Some 0" "0 \<notin> set ns"
    by blast
  from ns(3) l have "val (node_list ! hd ns) = goal_position cfg" by simp
  with ns root show ?thesis by blast
qed

subsection \<open>Steered nodes\<close>

lemma during_run_steered:
  assumes dr: "during_run cfg rnd k completed node_list"
    and i: "i < length node_list" "0 < i"
    and ng: "\<not> (completed \<and> i = length node_list - 1)"
  shows "steered cfg node_list i"
proof (cases completed)
  case False
  with during_run_shape [OF dr] have "grown cfg node_list" by simp
  with i show ?thesis by (simp add: grown_def)
next
  case True
  with during_run_shape [OF dr] obtain before p where
    b: "grown cfg before" "p < length before" "node_list = attach before p (goal_position cfg)"
    by auto
  from True ng i b(3) have ib: "i < length before" by (simp add: length_attach)
  with b(1) i(2) have "steered cfg before i" by (simp add: grown_def)
  then show ?thesis using ib b(3) by (simp add: steered_attach_old)
qed

lemma steered_nodes_collision_free:
  assumes "during_run cfg rnd k completed node_list" "i < length node_list" "0 < i"
    "\<not> (completed \<and> i = length node_list - 1)" "ob \<in> set (obstacle_list cfg)"
  shows "\<not> collides ob (val (node_list ! i))"
  using during_run_steered [OF assms(1-4)] assms(5)
  by (auto simp: steered_def collision_iff)

subsection \<open>Termination\<close>

lemma during_run_nonempty: "during_run cfg rnd k completed node_list \<Longrightarrow> node_list \<noteq> []"
  using during_run_well_formed [of cfg rnd k completed node_list] by (simp add: well_formed_def)

lemma rrt_loop_returns_within:
  assumes m: "0 < fst (map_size cfg)" "0 < snd (map_size cfg)"
  shows "during_run cfg rnd k False node_list \<Longrightarrow>
    nat (node_limit cfg - int (length node_list)) + idle_passes n cfg rnd k node_list \<le> n \<Longrightarrow>
    \<exists>k' completed node_list'. k' \<le> k + n \<and> during_run cfg rnd k' completed node_list' \<and>
      (completed \<or> node_limit cfg \<le> int (length node_list')) \<and>
      rrt_loop cfg rnd k node_list =
        Some (Inr (if completed then Completed node_list' else PathNotFound node_list'))"
proof (induction n arbitrary: k node_list)
  case 0
  then have lim: "\<not> int (length node_list) < node_limit cfg" by simp
  then have "rrt_loop cfg rnd k node_list = Some (Inr (PathNotFound node_list))"
    by (subst rrt_loop.simps) simp
  with lim "0.prems"(1) show ?case
    by (intro exI [of _ k] exI [of _ False] exI [of _ node_list]) simp
next
  case (Suc n)
  show ?case
  proof (cases "int (length node_list) < node_limit cfg")
    case False
    then have "rrt_loop cfg rnd k node_list = Some (Inr (PathNotFound node_list))"
      by (subst rrt_loop.simps) simp
    with False Suc.prems(1) show ?thesis
      by (intro exI [of _ k] exI [of _ False] exI [of _ node_list]) simp
  next
    case lim: True
    show ?thesis
    proof (cases "loop_body cfg (rnd k) node_list")
      case (Inl e)
      from loop_body_Inl [OF this] during_run_nonempty [OF Suc.prems(1)] show ?thesis by simp
    next
      case (Inr b)
      obtain c nl' where b: "b = (c, nl')" by (cases b)
      have dr: "during_run cfg rnd (Suc k) c nl'"
        using during_run.pass [OF Suc.prems(1) lim m] Inr b by simp
      show ?thesis
      proof (cases c)
        case True
        have "rrt_loop cfg rnd k node_list = Some (Inr (Completed nl'))"
          using lim m Inr b True by (subst rrt_loop.simps) simp
        with dr True show ?thesis
          by (intro exI [of _ "Suc k"] exI [of _ True] exI [of _ nl']) simp
      next
        case False
        have step: "rrt_loop cfg rnd k node_list = rrt_loop cfg rnd (Suc k) nl'"
          using lim m Inr b False by (subst rrt_loop.simps) simp
        have idle: "idle_passes (Suc n) cfg rnd k node_list =
          (if length nl' = length node_list then 1 else 0) + idle_passes n cfg rnd (Suc k) nl'"
          using lim Inr b False by simp
        from loop_body_attach [of cfg "rnd k" node_list c nl'] Inr b
        have "nl' = node_list \<or> (\<exists>p v. nl' = attach node_list p v)" by auto
        then have bound: "nat (node_limit cfg - int (length nl')) + idle_passes n cfg rnd (Suc k) nl' \<le> n"
        proof
          assume "nl' = node_list"
          with Suc.prems idle show ?thesis by simp
        next
          assume "\<exists>p v. nl' = attach node_list p v"
          then have "length nl' = Suc (length node_list)" by (auto simp: length_attach)
          with Suc.prems(2) idle lim show ?thesis by auto
        qed
        from dr False have dr': "during_run cfg rnd (Suc k) False nl'" by simp
        from Suc.IH [OF dr' bound] obtain k' c' nl'' where
          r: "k' \<le> Suc k + n" "during_run cfg rnd k' c' nl''"
          "c' \<or> node_limit cfg \<le> int (length nl'')"
          "rrt_loop cfg rnd (Suc k) nl' = Some (Inr (if c' then Completed nl'' else PathNotFound nl''))"
          by blast
        with step show ?thesis
          by (intro exI [of _ k'] exI [of _ c'] exI [of _ nl'']) simp
      qed
    qed
  qed
qed

subsection \<open>The example runs\<close>

lemma demo_pass_0:
  "loop_body demo_config (9, 0) [\<lparr>val = (0, 0), parent = None, children = []\<rparr>] =
     Inr (False, [\<lparr>val = (0, 0), parent = None, children = [Suc 0]\<rparr>,
                  \<lparr>val = (1, 0), parent = Some 0, children = []\<rparr>])"
  by (simp add: loop_body_def demo_config_def Let_def vec_sub_def vec_add_def vec_mul_def
      vec_div_def linalg_norm_def attach_def add_child_def TreeNode_def)

lemma demo_pass_1:
  "loop_body demo_config (9, 0)
     [\<lparr>val = (0, 0), parent = None, children = [Suc 0]\<rparr>,
      \<lparr>val = (1, 0), parent = Some 0, children = []\<rparr>] =
     Inr (False, [\<lparr>val = (0, 0), parent = None, children = [Suc 0]\<rparr>,
                  \<lparr>val = (1, 0), parent = Some 0, children = [Suc (Suc 0)]\<rparr>,
                  \<lparr>val = (2, 0), parent = Some (Suc 0), children = []\<rparr>])"
  by (simp add: loop_body_def demo_config_def Let_def vec_sub_def vec_add_def vec_mul_def
      vec_div_def linalg_norm_def attach_def add_child_def TreeNode_def)

lemma demo_pass_2:
  "loop_body demo_config (9, 0)
     [\<lparr>val = (0, 0), parent = None, children = [Suc 0]\<rparr>,
      \<lparr>val = (1, 0), parent = Some 0, children = [Suc (Suc 0)]\<rparr>,
      \<lparr>val = (2, 0), parent = Some (Suc 0), children = []\<rparr>] = Inr (True, demo_tree)"
  by (simp add: loop_body_def demo_config_def demo_tree_def Let_def vec_sub_def vec_add_def vec_mul_def
      vec_div_def linalg_norm_def attach_def add_child_def TreeNode_def)

lemma demo_fields:
  "node_limit demo_config = 1000" "map_size demo_config = (10, 10)"
  "start_position demo_config = (0, 0)" "goal_position demo_config = (9 / 4, 0)"
  "step_size demo_config = 1"
  by (simp_all add: demo_config_def)

lemma demo_run: "run_rrt_2D demo_config demo_samples = Some (Inr (Completed demo_tree))"
  unfolding run_rrt_2D_def
  apply (subst rrt_loop.simps)
  apply (subst rrt_loop.simps)
  apply (subst rrt_loop.simps)
  apply (simp add: demo_samples_def TreeNode_def demo_pass_0 demo_pass_1 demo_pass_2 demo_fields)
  done

lemma demo_during_run: "during_run demo_config demo_samples 3 True demo_tree"
proof -
  have lim: "int (length xs) < node_limit demo_config" if "length xs \<le> 3" for xs :: "tree_node list"
    using that by (simp add: demo_fields)
  have m: "0 < fst (map_size demo_config)" "0 < snd (map_size demo_config)"
    by (simp_all add: demo_fields)
  have s: "demo_samples k = (9, 0)" for k by (simp add: demo_samples_def)
  have "during_run demo_config demo_samples 0 False [\<lparr>val = (0, 0), parent = None, children = []\<rparr>]"
    using during_run.started [of demo_config demo_samples] by (simp add: demo_fields TreeNode_def)
  from during_run.pass [OF this lim m, of False _] demo_pass_0
  have "during_run demo_config demo_samples (Suc 0) False
     [\<lparr>val = (0, 0), parent = None, children = [Suc 0]\<rparr>,
      \<lparr>val = (1, 0), parent = Some 0, children = []\<rparr>]"
    by (simp add: s)
  from during_run.pass [OF this lim m, of False _] demo_pass_1
  have "during_run demo_config demo_samples (Suc (Suc 0)) False
     [\<lparr>val = (0, 0), parent = None, children = [Suc 0]\<rparr>,
      \<lparr>val = (1, 0), parent = Some 0, children = [Suc (Suc 0)]\<rparr>,
      \<lparr>val = (2, 0), parent = Some (Suc 0), children = []\<rparr>]"
    by (simp add: s)
  from during_run.pass [OF this lim m, of True demo_tree] demo_pass_2
  show ?thesis by (simp add: s numeral_3_eq_3)
qed

lemma demo_scan_zero:
  "scan_nodes demo_config (real_of_int (fst (0, 0)), real_of_int (snd (0, 0)))
     [\<lparr>val = (0, 0), parent = None, children = []\<rparr>] 0 None = Scanned (Some (0, 0, (0, 0)))"
  by (simp add: demo_config_def Let_def vec_sub_def linalg_norm_def)

lemma near_goal_run:
  "run_rrt_2D near_goal_config rnd = Some (Inr (Completed near_goal_tree))"
  unfolding run_rrt_2D_def
  apply (subst rrt_loop.simps)
  apply (simp add: loop_body_def near_goal_config_def near_goal_tree_def Let_def vec_sub_def
      linalg_norm_def attach_def add_child_def TreeNode_def)
  done

lemma near_goal_path: "publish_path near_goal_tree = Some (Inr [(3 / 10, 0)])"
  unfolding publish_path_def
  apply (subst walk_parents.simps)
  apply (subst walk_parents.simps)
  apply (simp add: near_goal_tree_def)
  done

lemma near_goal_plot:
  "plot_rrt_2D_path near_goal_tree = Some (Inr [((3 / 10, 0), (0, 0))])"
  unfolding plot_rrt_2D_path_def
  apply (subst walk_segments.simps)
  apply (subst walk_segments.simps)
  apply (simp add: near_goal_tree_def)
  done

lemma blocked_pass:
  "loop_body blocked_config (9, 0) [\<lparr>val = (0, 0), parent = None, children = []\<rparr>] =
     Inr (False, [\<lparr>val = (0, 0), parent = None, children = []\<rparr>])"
  by (simp add: loop_body_def blocked_config_def Let_def vec_sub_def vec_add_def vec_mul_def
      vec_div_def linalg_norm_def attach_def add_child_def TreeNode_def)

lemma blocked_scan:
  "scan_nodes blocked_config (real_of_int (fst (9, 0)), real_of_int (snd (9, 0)))
     [\<lparr>val = (0, 0), parent = None, children = []\<rparr>] 0 None = Scanned (Some (9, 0, (9, 0)))"
  by (simp add: blocked_config_def Let_def vec_sub_def linalg_norm_def)

lemma blocked_candidate:
  "collision (obstacle_list blocked_config)
     (vec_add (val ([\<lparr>val = (0, 0), parent = None, children = []\<rparr>] ! 0))
        (vec_mul (vec_div (9, 0) 9) (step_size blocked_config)))"
  by (simp add: blocked_config_def vec_sub_def vec_add_def vec_mul_def vec_div_def linalg_norm_def)

lemma blocked_never_returns:
  assumes "rrt_loop cfg rnd k node_list = Some r"
  shows "\<not> (cfg = blocked_config \<and> rnd = demo_samples \<and>
            node_list = [\<lparr>val = (0, 0), parent = None, children = []\<rparr>])"
proof (rule rrt_loop.raw_induct
    [where P = "\<lambda>cfg rnd k node_list r. \<not> (cfg = blocked_config \<and> rnd = demo_samples \<and>
            node_list = [\<lparr>val = (0, 0), parent = None, children = []\<rparr>])", OF _ assms])
  fix loop :: "config \<Rightarrow> (nat \<Rightarrow> int \<times> int) \<Rightarrow> nat \<Rightarrow> tree_node list \<Rightarrow> (error + outcome) option"
  fix cfg rnd k node_list r
  assume IH: "\<And>cfg rnd k node_list r. loop cfg rnd k node_list = Some r \<Longrightarrow>
    \<not> (cfg = blocked_config \<and> rnd = demo_samples \<and>
            node_list = [\<lparr>val = (0, 0), parent = None, children = []\<rparr>])"
  assume eq: "(if int (length node_list) < node_limit cfg
      then if fst (map_size cfg) \<le> 0 \<or> snd (map_size cfg) \<le> 0
           then Some (Inl ValueError)
           else case loop_body cfg (rnd k) node_list of
                  Inl e \<Rightarrow> Some (Inl e)
                | Inr (completed, node_list') \<Rightarrow>
                    if completed then Some (Inr (Completed node_list'))
                    else loop cfg rnd (Suc k) node_list'
      else Some (Inr (PathNotFound node_list))) = Some r"
  show "\<not> (cfg = blocked_config \<and> rnd = demo_samples \<and>
            node_list = [\<lparr>val = (0, 0), parent = None, children = []\<rparr>])"
  proof
    assume a: "cfg = blocked_config \<and> rnd = demo_samples \<and>
            node_list = [\<lparr>val = (0, 0), parent = None, children = []\<rparr>]"
    have f: "node_limit blocked_config = 5" "map_size blocked_config = (10, 10)"
      by (simp_all add: blocked_config_def)
    from eq a have "loop blocked_config demo_samples (Suc k)
        [\<lparr>val = (0, 0), parent = None, children = []\<rparr>] = Some r"
      by (simp add: f demo_samples_def blocked_pass)
    from IH [OF this] show False by simp
  qed
qed

lemma goal_in_circle_run:
  "run_rrt_2D goal_in_circle_config demo_samples =
     Some (Inr (Completed [\<lparr>val = (1, 0), parent = None, children = [1]\<rparr>,
                           \<lparr>val = (1, 3 / 10), parent = Some 0, children = []\<rparr>]))"
  unfolding run_rrt_2D_def
  apply (subst rrt_loop.simps)
  apply (simp add: loop_body_def goal_in_circle_config_def Let_def vec_sub_def vec_add_def vec_mul_def
      vec_div_def linalg_norm_def attach_def add_child_def TreeNode_def)
  done

lemma overshoot_pass:
  "loop_body overshoot_config (9, 0) [\<lparr>val = (17 / 2, 0), parent = None, children = []\<rparr>] =
     Inr (False, [\<lparr>val = (17 / 2, 0), parent = None, children = [Suc 0]\<rparr>,
                  \<lparr>val = (21 / 2, 0), parent = Some 0, children = []\<rparr>])"
  by (simp add: loop_body_def overshoot_config_def Let_def vec_sub_def vec_add_def vec_mul_def
      vec_div_def linalg_norm_def attach_def add_child_def TreeNode_def)

lemma overshoot_fields:
  "node_limit overshoot_config = 2" "map_size overshoot_config = (10, 10)"
  "start_position overshoot_config = (17 / 2, 0)"
  by (simp_all add: overshoot_config_def)

lemma overshoot_run:
  "run_rrt_2D overshoot_config demo_samples =
     Some (Inr (PathNotFound [\<lparr>val = (17 / 2, 0), parent = None, children = [1]\<rparr>,
                           \<lparr>val = (21 / 2, 0), parent = Some 0, children = []\<rparr>]))"
  unfolding run_rrt_2D_def
  apply (subst rrt_loop.simps)
  apply (subst rrt_loop.simps)
  apply (simp add: loop_body_def overshoot_config_def demo_samples_def Let_def vec_sub_def vec_add_def vec_mul_def
      vec_div_def linalg_norm_def attach_def add_child_def TreeNode_def)
  done

lemma overshoot_idle:
  "idle_passes 1 overshoot_config demo_samples 0 [TreeNode (start_position overshoot_config) None] = 0"
  unfolding One_nat_def
  apply (subst idle_passes.simps)
  apply (simp only: demo_samples_def)
  apply (simp only: TreeNode_def overshoot_fields)
  apply (simp only: overshoot_pass)
  apply simp
  done

section \<open>The claims\<close>

subsection \<open>C1: termination\<close>

text \<open>
  C1, as amended. The loop runs while the node list is shorter than \<open>node_limit\<close>, and
  a pass that adds no node is not counted. For positive map sizes: if, for some \<open>n\<close>,
  the idle passes among the first \<open>n\<close> passes leave room for the \<open>node_limit - 1\<close>
  passes that add a node, the loop stops after at most \<open>n\<close> passes and the run returns,
  either completed, with the goal attached, or with "Path not found" and a node list of
  length \<open>node_limit\<close> or more.
\<close>

theorem run_returns_when_few_passes_idle:
  "0 < fst (map_size cfg) \<and> 0 < snd (map_size cfg) \<and>
   nat (node_limit cfg - 1) + idle_passes n cfg rnd 0 [TreeNode (start_position cfg) None] \<le> n
   \<longrightarrow> (\<exists>k\<le>n. \<exists>completed node_list.
          during_run cfg rnd k completed node_list \<and>
          (completed \<or> node_limit cfg \<le> int (length node_list)) \<and>
          run_rrt_2D cfg rnd =
            Some (Inr (if completed then Completed node_list else PathNotFound node_list)))"
proof
  assume a: "0 < fst (map_size cfg) \<and> 0 < snd (map_size cfg) \<and>
   nat (node_limit cfg - 1) + idle_passes n cfg rnd 0 [TreeNode (start_position cfg) None] \<le> n"
  then have m: "0 < fst (map_size cfg)" "0 < snd (map_size cfg)" by simp_all
  from a have b: "nat (node_limit cfg - int (length [TreeNode (start_position cfg) None])) +
    idle_passes n cfg rnd 0 [TreeNode (start_position cfg) None] \<le> n"
    by simp
  from rrt_loop_returns_within [OF m during_run.started b]
  show "\<exists>k\<le>n. \<exists>completed node_list.
          during_run cfg rnd k completed node_list \<and>
          (completed \<or> node_limit cfg \<le> int (length node_list)) \<and>
          run_rrt_2D cfg rnd =
            Some (Inr (if completed then Completed node_list else PathNotFound node_list))"
    by (simp add: run_rrt_2D_def)
qed

theorem run_returns_when_few_passes_idle_witness:
  "0 < fst (map_size overshoot_config) \<and> 0 < snd (map_size overshoot_config) \<and>
   nat (node_limit overshoot_config - 1) +
     idle_passes 1 overshoot_config demo_samples 0
       [TreeNode (start_position overshoot_config) None] \<le> 1 \<and>
   (\<exists>k\<le>1. \<exists>completed node_list.
      during_run overshoot_config demo_samples k completed node_list \<and>
      (completed \<or> node_limit overshoot_config \<le> int (length node_list)) \<and>
      run_rrt_2D overshoot_config demo_samples =
        Some (Inr (if completed then Completed node_list else PathNotFound node_list)))"
proof -
  have h: "0 < fst (map_size overshoot_config) \<and> 0 < snd (map_size overshoot_config) \<and>
   nat (node_limit overshoot_config - 1) +
     idle_passes 1 overshoot_config demo_samples 0
       [TreeNode (start_position overshoot_config) None] \<le> 1"
    unfolding overshoot_idle by (simp add: overshoot_fields(1,2))
  from h mp [OF run_returns_when_few_passes_idle h] show ?thesis by (intro conjI) simp_all
qed

text \<open>
  C1, as stated, fails: with a circle around the goal that covers the whole map, a node
  limit of 5 and every draw at \<open>(9, 0)\<close>, every candidate collides, the node list keeps
  its single node and the run never returns.
\<close>

theorem blocked_run_never_returns: "run_rrt_2D blocked_config demo_samples = None"
proof (cases "run_rrt_2D blocked_config demo_samples")
  case None
  then show ?thesis .
next
  case (Some r)
  with blocked_never_returns [of blocked_config demo_samples 0
      "[\<lparr>val = (0, 0), parent = None, children = []\<rparr>]" r]
  show ?thesis by (simp add: run_rrt_2D_def TreeNode_def blocked_config_def)
qed

subsection \<open>C2: the published path\<close>

text \<open>
  C2 at a failing input. With the configuration of the source and the goal at
  \<open>(0.3, 0)\<close>, the root is within the goal tolerance, so for every stream of draws
  the run completes with the root and the goal node. The published path is the goal
  position alone: it does not end at the start position \<open>(0, 0)\<close>, which it does not
  contain at all. The path that \<open>plot_rrt_2D\<close> draws from the same walk ends at the
  start position.
\<close>

theorem published_path_omits_start:
  "run_rrt_2D near_goal_config rnd = Some (Inr (Completed near_goal_tree)) \<and>
   publish_path near_goal_tree = Some (Inr [(3 / 10, 0)]) \<and>
   last [(3 / 10 :: real, 0 :: real)] \<noteq> start_position near_goal_config \<and>
   start_position near_goal_config \<notin> set [(3 / 10 :: real, 0 :: real)] \<and>
   plot_rrt_2D_path near_goal_tree =
     Some (Inr [((3 / 10, 0), start_position near_goal_config)])"
  using near_goal_run [of rnd] near_goal_path near_goal_plot
  by (simp add: near_goal_config_def)

subsection \<open>C3: collision-free nodes\<close>

text \<open>
  C3 at a failing input. With the obstacles of the source, start \<open>(1, 0)\<close> and goal
  \<open>(1, 0.3)\<close>, the root is within the goal tolerance, so the first pass attaches the
  goal node without any collision test, and the goal node lies inside the first circle.
\<close>

theorem goal_node_inside_obstacle:
  "run_rrt_2D goal_in_circle_config demo_samples =
     Some (Inr (Completed [\<lparr>val = (1, 0), parent = None, children = [1]\<rparr>,
                           \<lparr>val = (1, 3 / 10), parent = Some 0, children = []\<rparr>])) \<and>
   obstacle_list goal_in_circle_config = [Circle 1 1 1, Rectangle (- 1) (- 1) 1 1 0] \<and>
   collides (Circle 1 1 1) (val \<lparr>val = (1, 3 / 10), parent = Some 0, children = []\<rparr>)"
  using goal_in_circle_run
  by (simp add: goal_in_circle_config_def vec_sub_def linalg_norm_def)

subsection \<open>C4: the goal check inside the scan\<close>

text \<open>
  C4. If \<open>node\<close> is the first node of the list within the goal tolerance, the scan stops
  at it whatever the sample and whatever nodes follow: the pass sets \<open>completed\<close>, adds
  the index of the new node to the children of \<open>node\<close> and appends a node at exactly the
  goal position with \<open>node\<close> as parent, and the loop returns this list as completed.
\<close>

theorem goal_check_stops_scan:
  assumes "\<forall>m \<in> set pre. \<not> linalg_norm (vec_sub (goal_position cfg) (val m)) < goal_tolerance cfg"
    and "linalg_norm (vec_sub (goal_position cfg) (val node)) < goal_tolerance cfg"
  shows "scan_nodes cfg random_position (pre @ node # post) 0 None = Reached (length pre) \<and>
    loop_body cfg sample (pre @ node # post) =
      Inr (True, pre @ node\<lparr>children := children node @ [length (pre @ node # post)]\<rparr> # post @
                 [\<lparr>val = goal_position cfg, parent = Some (length pre), children = []\<rparr>]) \<and>
    (int (length (pre @ node # post)) < node_limit cfg \<and>
     0 < fst (map_size cfg) \<and> 0 < snd (map_size cfg) \<longrightarrow>
     rrt_loop cfg rnd k (pre @ node # post) =
       Some (Inr (Completed
         (pre @ node\<lparr>children := children node @ [length (pre @ node # post)]\<rparr> # post @
          [\<lparr>val = goal_position cfg, parent = Some (length pre), children = []\<rparr>]))))"
proof -
  have scan: "scan_nodes cfg rp (pre @ node # post) 0 None = Reached (length pre)" for rp
    using scan_nodes_first [OF assms, of rp post 0 None] by simp
  have body: "loop_body cfg smp (pre @ node # post) =
      Inr (True, pre @ node\<lparr>children := children node @ [length (pre @ node # post)]\<rparr> # post @
                 [\<lparr>val = goal_position cfg, parent = Some (length pre), children = []\<rparr>])" for smp
    by (simp add: loop_body_def scan attach_def add_child_def TreeNode_def)
  have "rrt_loop cfg rnd k (pre @ node # post) =
       Some (Inr (Completed
         (pre @ node\<lparr>children := children node @ [length (pre @ node # post)]\<rparr> # post @
          [\<lparr>val = goal_position cfg, parent = Some (length pre), children = []\<rparr>])))"
    if "int (length (pre @ node # post)) < node_limit cfg"
      "0 < fst (map_size cfg)" "0 < snd (map_size cfg)"
    using that by (subst rrt_loop.simps) (simp add: body)
  with scan body show ?thesis by blast
qed

theorem goal_check_stops_scan_witness:
  "\<not> linalg_norm (vec_sub (goal_position demo_config)
     (val \<lparr>val = (0, 0), parent = None, children = [1, 2]\<rparr>)) < goal_tolerance demo_config \<and>
   linalg_norm (vec_sub (goal_position demo_config)
     (val \<lparr>val = (2, 0), parent = Some 0, children = []\<rparr>)) < goal_tolerance demo_config \<and>
   loop_body demo_config (9, 0)
     [\<lparr>val = (0, 0), parent = None, children = [1, 2]\<rparr>,
      \<lparr>val = (2, 0), parent = Some 0, children = []\<rparr>,
      \<lparr>val = (9, 0), parent = Some 0, children = []\<rparr>] =
   Inr (True,
     [\<lparr>val = (0, 0), parent = None, children = [1, 2]\<rparr>,
      \<lparr>val = (2, 0), parent = Some 0, children = [3]\<rparr>,
      \<lparr>val = (9, 0), parent = Some 0, children = []\<rparr>,
      \<lparr>val = (9 / 4, 0), parent = Some 1, children = []\<rparr>])"
proof -
  have h1: "\<forall>m \<in> set [\<lparr>val = (0, 0), parent = None, children = [1, 2]\<rparr>].
      \<not> linalg_norm (vec_sub (goal_position demo_config) (val m)) < goal_tolerance demo_config"
    by (simp add: demo_config_def vec_sub_def linalg_norm_def)
  have h2: "linalg_norm (vec_sub (goal_position demo_config)
     (val \<lparr>val = (2, 0), parent = Some 0, children = []\<rparr>)) < goal_tolerance demo_config"
    by (simp add: demo_config_def vec_sub_def linalg_norm_def)
  from goal_check_stops_scan [OF h1 h2, of "(9, 0)"
      "[\<lparr>val = (9, 0), parent = Some 0, children = []\<rparr>]" "(9, 0)" demo_samples 0]
  have "loop_body demo_config (9, 0)
     ([\<lparr>val = (0, 0), parent = None, children = [1, 2]\<rparr>] @
      \<lparr>val = (2, 0), parent = Some 0, children = []\<rparr> #
      [\<lparr>val = (9, 0), parent = Some 0, children = []\<rparr>]) =
   Inr (True,
     [\<lparr>val = (0, 0), parent = None, children = [1, 2]\<rparr>] @
      \<lparr>val = (2, 0), parent = Some 0, children = []\<rparr>
        \<lparr>children := children \<lparr>val = (2, 0), parent = Some 0, children = []\<rparr> @
           [length ([\<lparr>val = (0, 0), parent = None, children = [1, 2]\<rparr>] @
      \<lparr>val = (2, 0), parent = Some 0, children = []\<rparr> #
      [\<lparr>val = (9, 0), parent = Some 0, children = []\<rparr>])]\<rparr> #
      [\<lparr>val = (9, 0), parent = Some 0, children = []\<rparr>] @
      [\<lparr>val = goal_position demo_config,
        parent = Some (length [\<lparr>val = (0, 0), parent = None, children = [1, 2]\<rparr>]),
        children = []\<rparr>])"
    by blast
  then have "loop_body demo_config (9, 0)
     [\<lparr>val = (0, 0), parent = None, children = [1, 2]\<rparr>,
      \<lparr>val = (2, 0), parent = Some 0, children = []\<rparr>,
      \<lparr>val = (9, 0), parent = Some 0, children = []\<rparr>] =
   Inr (True,
     [\<lparr>val = (0, 0), parent = None, children = [1, 2]\<rparr>,
      \<lparr>val = (2, 0), parent = Some 0, children = [3]\<rparr>,
      \<lparr>val = (9, 0), parent = Some 0, children = []\<rparr>,
      \<lparr>val = (9 / 4, 0), parent = Some 1, children = []\<rparr>])"
    by (simp add: demo_fields)
  moreover have "\<not> linalg_norm (vec_sub (goal_position demo_config)
     (val \<lparr>val = (0, 0), parent = None, children = [1, 2]\<rparr>)) < goal_tolerance demo_config"
    using h1 by simp
  ultimately show ?thesis using h2 by (intro conjI)
qed

subsection \<open>C5: the collision test\<close>

text \<open>
  C5. The collision test of a circle holds exactly for the points whose Euclidean
  distance to the centre is strictly less than the radius, and the test of a rectangle
  exactly for the points of the open axis-aligned box around its centre. A point at
  distance exactly \<open>radius\<close>, or on one of the four edge lines of the box, does not
  collide.
\<close>

theorem collides_open_regions:
  "(collides (Circle cx cy radius) p \<longleftrightarrow> sqrt ((fst p - cx)\<^sup>2 + (snd p - cy)\<^sup>2) < radius) \<and>
   (collides (Rectangle x y width height angle) p \<longleftrightarrow>
      p \<in> {x - width / 2 <..< x + width / 2} \<times> {y - height / 2 <..< y + height / 2}) \<and>
   \<not> collides (Circle cx cy (sqrt ((fst p - cx)\<^sup>2 + (snd p - cy)\<^sup>2))) p \<and>
   \<not> collides (Rectangle x y width height angle) (x - width / 2, q) \<and>
   \<not> collides (Rectangle x y width height angle) (x + width / 2, q) \<and>
   \<not> collides (Rectangle x y width height angle) (q, y - height / 2) \<and>
   \<not> collides (Rectangle x y width height angle) (q, y + height / 2)"
  by (cases p) (simp add: linalg_norm_def vec_sub_def)

theorem collides_open_regions_witness:
  "collides (Circle 1 1 1) (1, 3 / 10) \<and> \<not> collides (Circle 1 1 1) (1, 0) \<and>
   collides (Rectangle (- 1) (- 1) 1 1 0) (- 1, - 1) \<and>
   \<not> collides (Rectangle (- 1) (- 1) 1 1 0) (- 1 / 2, - 1)"
  using collides_open_regions [where cx = 1 and cy = 1 and radius = 1 and p = "(1, 3 / 10)"]
    collides_open_regions [where cx = 1 and cy = 1 and p = "(1, 0)"]
    collides_open_regions [where x = "- 1" and y = "- 1" and width = 1 and height = 1
      and angle = 0 and p = "(- 1, - 1)" and q = "- 1"]
  by simp

subsection \<open>C6: the tree is well formed\<close>

text \<open>
  C6. After every pass of a run, and in the list with which a run returns, the node
  list is a well-formed tree rooted at the start position: the root has no parent, every
  other node has one parent, earlier in the list, and following at most \<open>i\<close> parent
  links from node \<open>i\<close> ends at the root.
\<close>

theorem tree_well_formed_during_run:
  "(during_run cfg rnd k completed node_list \<longrightarrow>
      well_formed cfg node_list \<and> (\<forall>i<length node_list. climb i node_list i = 0)) \<and>
   (run_rrt_2D cfg rnd = Some (Inr out) \<longrightarrow>
      well_formed cfg (nodes_of out) \<and>
      (\<forall>i<length (nodes_of out). climb i (nodes_of out) i = 0))"
proof (intro conjI impI)
  assume dr: "during_run cfg rnd k completed node_list"
  show "well_formed cfg node_list" by (rule during_run_well_formed [OF dr])
  then show "\<forall>i<length node_list. climb i node_list i = 0"
    using climb_root by blast
next
  assume "run_rrt_2D cfg rnd = Some (Inr out)"
  from run_rrt_2D_during_run [OF this]
  obtain k c where "during_run cfg rnd k c (nodes_of out)"
    by (cases out) (auto simp: finished_in_run_def)
  then have wf: "well_formed cfg (nodes_of out)" by (rule during_run_well_formed)
  then show "well_formed cfg (nodes_of out)" .
  from wf show "\<forall>i<length (nodes_of out). climb i (nodes_of out) i = 0"
    using climb_root by blast
qed

theorem tree_well_formed_during_run_witness:
  "during_run demo_config demo_samples 3 True demo_tree \<and>
   run_rrt_2D demo_config demo_samples = Some (Inr (Completed demo_tree)) \<and>
   well_formed demo_config demo_tree \<and> climb 3 demo_tree 3 = 0"
proof -
  note t = tree_well_formed_during_run [of demo_config demo_samples 3 True demo_tree
      "Completed demo_tree"]
  note a = mp [OF conjunct1 [OF t] demo_during_run]
  have "3 < length demo_tree" by (simp add: demo_tree_def)
  with a have "climb 3 demo_tree 3 = 0" by blast
  with demo_during_run demo_run a show ?thesis by (intro conjI) simp_all
qed

subsection \<open>C7: the step size\<close>

text \<open>
  C7. For a step size that is not negative, after every pass of a run every node other
  than the root and the goal node lies at distance exactly \<open>step_size\<close> from its parent,
  and the goal node lies exactly at the goal position. When the nearest distance is zero
  no unit vector is formed and the pass adds no node.
\<close>

theorem steered_distance_is_step_size:
  "(during_run cfg rnd k completed node_list \<and> 0 \<le> step_size cfg \<and>
    i < length node_list \<and> 0 < i \<longrightarrow>
      (if completed \<and> i = length node_list - 1
       then val (node_list ! i) = goal_position cfg
       else \<exists>p<i. parent (node_list ! i) = Some p \<and>
              linalg_norm (vec_sub (val (node_list ! i)) (val (node_list ! p))) = step_size cfg)) \<and>
   (scan_nodes cfg (real_of_int (fst sample), real_of_int (snd sample)) nodes 0 None =
      Scanned (Some (0, j, vec)) \<longrightarrow>
    loop_body cfg sample nodes = Inr (False, nodes))"
proof (intro conjI impI)
  assume a: "during_run cfg rnd k completed node_list \<and> 0 \<le> step_size cfg \<and>
    i < length node_list \<and> 0 < i"
  then have dr: "during_run cfg rnd k completed node_list" and st: "0 \<le> step_size cfg"
    and i: "i < length node_list" "0 < i" by simp_all
  show "if completed \<and> i = length node_list - 1
       then val (node_list ! i) = goal_position cfg
       else \<exists>p<i. parent (node_list ! i) = Some p \<and>
              linalg_norm (vec_sub (val (node_list ! i)) (val (node_list ! p))) = step_size cfg"
  proof (cases "completed \<and> i = length node_list - 1")
    case True
    with completed_last [of cfg rnd k node_list] dr show ?thesis by simp
  next
    case False
    from during_run_steered [OF dr i False] st False show ?thesis
      by (auto simp: steered_def)
  qed
next
  assume "scan_nodes cfg (real_of_int (fst sample), real_of_int (snd sample)) nodes 0 None =
      Scanned (Some (0, j, vec))"
  then show "loop_body cfg sample nodes = Inr (False, nodes)"
    by (rule loop_body_idle) simp
qed

theorem steered_distance_is_step_size_witness:
  "during_run demo_config demo_samples 3 True demo_tree \<and> 0 \<le> step_size demo_config \<and>
   linalg_norm (vec_sub (val (demo_tree ! 2)) (val (demo_tree ! 1))) = step_size demo_config \<and>
   val (demo_tree ! 3) = goal_position demo_config \<and>
   loop_body demo_config (0, 0) [\<lparr>val = (0, 0), parent = None, children = []\<rparr>] =
     Inr (False, [\<lparr>val = (0, 0), parent = None, children = []\<rparr>])"
proof -
  have st: "0 \<le> step_size demo_config" by (simp add: demo_fields)
  note t2 = steered_distance_is_step_size [of demo_config demo_samples 3 True demo_tree 2
      "(0, 0)" "[\<lparr>val = (0, 0), parent = None, children = []\<rparr>]" 0 "(0, 0)"]
  note t3 = steered_distance_is_step_size [of demo_config demo_samples 3 True demo_tree 3
      "(0, 0)" "[\<lparr>val = (0, 0), parent = None, children = []\<rparr>]" 0 "(0, 0)"]
  have l: "length demo_tree = 4" by (simp add: demo_tree_def)
  have "if True \<and> 2 = length demo_tree - 1
       then val (demo_tree ! 2) = goal_position demo_config
       else \<exists>p<2. parent (demo_tree ! 2) = Some p \<and>
              linalg_norm (vec_sub (val (demo_tree ! 2)) (val (demo_tree ! p))) = step_size demo_config"
    by (rule mp [OF conjunct1 [OF t2]]) (simp add: demo_during_run st l)
  then have a: "linalg_norm (vec_sub (val (demo_tree ! 2)) (val (demo_tree ! 1))) = step_size demo_config"
    by (auto simp: l demo_tree_def)
  have "if True \<and> 3 = length demo_tree - 1
       then val (demo_tree ! 3) = goal_position demo_config
       else \<exists>p<3. parent (demo_tree ! 3) = Some p \<and>
              linalg_norm (vec_sub (val (demo_tree ! 3)) (val (demo_tree ! p))) = step_size demo_config"
    by (rule mp [OF conjunct1 [OF t3]]) (simp add: demo_during_run st l)
  then have b: "val (demo_tree ! 3) = goal_position demo_config"
    by (simp add: l)
  note c = mp [OF conjunct2 [OF t2] demo_scan_zero]
  from demo_during_run st a b c show ?thesis by (intro conjI)
qed

subsection \<open>C8: a pass is atomic\<close>

text \<open>
  C8. A pass that returns leaves the node list as it was or appends exactly one node,
  whose index it adds to the children of its parent, and changes nothing else. A pass
  whose nearest distance is zero or whose candidate collides leaves the list as it was.
\<close>

theorem pass_commits_one_node_or_nothing:
  "(loop_body cfg sample node_list = Inr (completed, node_list') \<longrightarrow>
      node_list' = node_list \<or>
      (\<exists>p<length node_list. \<exists>v.
         node_list' =
           node_list[p := (node_list ! p)\<lparr>children := children (node_list ! p) @ [length node_list]\<rparr>]
           @ [\<lparr>val = v, parent = Some p, children = []\<rparr>])) \<and>
   (scan_nodes cfg (real_of_int (fst sample), real_of_int (snd sample)) node_list 0 None =
      Scanned (Some (d, i, vec)) \<and>
    (d = 0 \<or> collision (obstacle_list cfg)
       (vec_add (val (node_list ! i)) (vec_mul (vec_div vec d) (step_size cfg)))) \<longrightarrow>
    loop_body cfg sample node_list = Inr (False, node_list))"
proof (intro conjI impI)
  assume "loop_body cfg sample node_list = Inr (completed, node_list')"
  from loop_body_attach [OF this]
  show "node_list' = node_list \<or>
      (\<exists>p<length node_list. \<exists>v.
         node_list' =
           node_list[p := (node_list ! p)\<lparr>children := children (node_list ! p) @ [length node_list]\<rparr>]
           @ [\<lparr>val = v, parent = Some p, children = []\<rparr>])"
    by (simp add: attach_def add_child_def TreeNode_def)
next
  assume "scan_nodes cfg (real_of_int (fst sample), real_of_int (snd sample)) node_list 0 None =
      Scanned (Some (d, i, vec)) \<and>
    (d = 0 \<or> collision (obstacle_list cfg)
       (vec_add (val (node_list ! i)) (vec_mul (vec_div vec d) (step_size cfg))))"
  then show "loop_body cfg sample node_list = Inr (False, node_list)"
    using loop_body_idle by blast
qed

theorem pass_commits_one_node_or_nothing_witness:
  "loop_body blocked_config (9, 0) [\<lparr>val = (0, 0), parent = None, children = []\<rparr>] =
     Inr (False, [\<lparr>val = (0, 0), parent = None, children = []\<rparr>]) \<and>
   loop_body demo_config (9, 0) [\<lparr>val = (0, 0), parent = None, children = []\<rparr>] =
     Inr (False, [\<lparr>val = (0, 0), parent = None, children = [Suc 0]\<rparr>,
                  \<lparr>val = (1, 0), parent = Some 0, children = []\<rparr>]) \<and>
   ([\<lparr>val = (0, 0), parent = None, children = [Suc 0]\<rparr>,
     \<lparr>val = (1, 0), parent = Some 0, children = []\<rparr>] =
      [\<lparr>val = (0, 0), parent = None, children = []\<rparr>] \<or>
    (\<exists>p<length [\<lparr>val = (0, 0), parent = None, children = []\<rparr>]. \<exists>v.
       [\<lparr>val = (0, 0), parent = None, children = [Suc 0]\<rparr>,
        \<lparr>val = (1, 0), parent = Some 0, children = []\<rparr>] =
       [\<lparr>val = (0, 0), parent = None, children = []\<rparr>]
         [p := ([\<lparr>val = (0, 0), parent = None, children = []\<rparr>] ! p)
            \<lparr>children := children ([\<lparr>val = (0, 0), parent = None, children = []\<rparr>] ! p) @
               [length [\<lparr>val = (0, 0), parent = None, children = []\<rparr>]]\<rparr>]
         @ [\<lparr>val = v, parent = Some p, children = []\<rparr>]))"
proof -
  note idle = pass_commits_one_node_or_nothing [of blocked_config "(9, 0)"
      "[\<lparr>val = (0, 0), parent = None, children = []\<rparr>]" False
      "[\<lparr>val = (0, 0), parent = None, children = []\<rparr>]" 9 0 "(9, 0)"]
  note grow = pass_commits_one_node_or_nothing [of demo_config "(9, 0)"
      "[\<lparr>val = (0, 0), parent = None, children = []\<rparr>]" False
      "[\<lparr>val = (0, 0), parent = None, children = [Suc 0]\<rparr>,
        \<lparr>val = (1, 0), parent = Some 0, children = []\<rparr>]"]
  have a: "loop_body blocked_config (9, 0) [\<lparr>val = (0, 0), parent = None, children = []\<rparr>] =
     Inr (False, [\<lparr>val = (0, 0), parent = None, children = []\<rparr>])"
    by (rule mp [OF conjunct2 [OF idle]]) (intro conjI disjI2 blocked_scan blocked_candidate)
  note b = mp [OF conjunct1 [OF grow] demo_pass_0]
  from a demo_pass_0 b show ?thesis by (intro conjI)
qed

subsection \<open>C9: the goal node is last\<close>

text \<open>
  C9. In the node list of a completed run the last node sits at the goal position and
  has a parent, and the published path, which starts from the last node, starts with the
  goal position.
\<close>

theorem goal_node_is_last:
  "run_rrt_2D cfg rnd = Some (Inr (Completed node_list)) \<Longrightarrow>
   node_list \<noteq> [] \<and> val (last node_list) = goal_position cfg \<and>
   (\<exists>p<length node_list - 1. parent (last node_list) = Some p) \<and>
   (\<exists>rest. publish_path node_list = Some (Inr (goal_position cfg # rest)))"
proof -
  assume "run_rrt_2D cfg rnd = Some (Inr (Completed node_list))"
  from completed_during_run [OF this] obtain k where dr: "during_run cfg rnd k True node_list" ..
  note l = completed_last [OF dr]
  from completed_path [OF dr] obtain ns where
    ns: "publish_path node_list = Some (Inr (map (\<lambda>j. val (node_list ! j)) ns))"
    "ns \<noteq> []" "hd ns = length node_list - 1"
    by blast
  from ns(2,3) l have "map (\<lambda>j. val (node_list ! j)) ns =
    goal_position cfg # map (\<lambda>j. val (node_list ! j)) (tl ns)"
    by (cases ns) simp_all
  with ns(1) have "\<exists>rest. publish_path node_list = Some (Inr (goal_position cfg # rest))"
    by simp
  moreover from l have "node_list \<noteq> []" by auto
  ultimately show ?thesis using l by blast
qed

theorem goal_node_is_last_witness:
  "run_rrt_2D demo_config demo_samples = Some (Inr (Completed demo_tree)) \<and>
   val (last demo_tree) = goal_position demo_config \<and>
   (\<exists>rest. publish_path demo_tree = Some (Inr (goal_position demo_config # rest)))"
  using goal_node_is_last [OF demo_run] demo_run by simp

subsection \<open>C10: nodes outside the map\<close>

text \<open>
  C10. A steered node can leave the map: with map size \<open>(10, 10)\<close>, start
  \<open>(8.5, 0)\<close>, step size 2, no obstacle and every draw at \<open>(9, 0)\<close>, inside the map,
  the first pass adds a node at \<open>(10.5, 0)\<close>.
\<close>

theorem node_outside_map:
  "run_rrt_2D overshoot_config demo_samples =
     Some (Inr (PathNotFound [\<lparr>val = (17 / 2, 0), parent = None, children = [1]\<rparr>,
                              \<lparr>val = (21 / 2, 0), parent = Some 0, children = []\<rparr>])) \<and>
   map_size overshoot_config = (10, 10) \<and>
   (\<forall>k. - 10 \<le> fst (demo_samples k) \<and> fst (demo_samples k) < 10 \<and>
        - 10 \<le> snd (demo_samples k) \<and> snd (demo_samples k) < 10) \<and>
   real_of_int (fst (map_size overshoot_config)) <
     fst (val \<lparr>val = (21 / 2, 0), parent = Some 0, children = []\<rparr>)"
  using overshoot_run by (simp add: overshoot_config_def demo_samples_def)

end
